theory Spec2Isabelle
  imports Main "HOL-Library.Sublist"
begin

section \<open>Strings\<close>

text \<open>
  The program manipulates Python strings with \<^verbatim>\<open>str.endswith\<close>, \<^verbatim>\<open>str.replace\<close> and the
  substring test \<^verbatim>\<open>in\<close>.  A string is a list of characters.
\<close>

definition endswith :: "string \<Rightarrow> string \<Rightarrow> bool" where
  "endswith s suf = suffix suf s"

text \<open>\<^verbatim>\<open>sub in s\<close>: \<open>sub\<close> occurs in \<open>s\<close> as a contiguous block.\<close>

definition contains :: "string \<Rightarrow> string \<Rightarrow> bool" where
  "contains sub s = sublist sub s"

text \<open>
  \<^verbatim>\<open>s.replace(old, new)\<close> replaces every occurrence of \<open>old\<close>, scanning from the left and
  resuming after each replaced occurrence (occurrences never overlap).  An empty \<open>old\<close>
  matches before every character and at the end.
\<close>

function replace :: "string \<Rightarrow> string \<Rightarrow> string \<Rightarrow> string" where
  "replace s old new =
     (if old = [] then new @ concat (map (\<lambda>c. c # new) s)
      else if prefix old s then new @ replace (drop (length old) s) old new
      else (case s of [] \<Rightarrow> [] | c # cs \<Rightarrow> c # replace cs old new))"
  by pat_completeness auto
termination
  by (relation "measure (\<lambda>(s, old, new). length s)") (auto simp: prefix_def)

declare replace.simps [simp del]

section \<open>Constants and seed selection\<close>

definition BASE_URL :: string where
  "BASE_URL = ''https://jeodpp.jrc.ec.europa.eu/ftp/jrc-opendata/DRLL/AI4BOUNDARIES/''"

definition valid_sensors :: "string list" where
  "valid_sensors = [''All'', ''ortho'', ''s2'']"

definition valid_countries :: "string list" where
  "valid_countries = [''All'', ''AT'', ''ES'', ''FR'', ''LU'', ''NL'', ''SE'', ''SI'']"

text \<open>
  The value of the list \<^verbatim>\<open>urls\<close> after the selection logic of \<^verbatim>\<open>download_ai4boundaries\<close>
  (it starts empty and each branch appends to it; the branch order is the source's).
\<close>

definition select_seeds :: "string \<Rightarrow> string \<Rightarrow> string list" where
  "select_seeds sensor country =
     (if sensor = ''All'' \<and> country = ''All'' then [BASE_URL]
      else if sensor = ''ortho'' then
        (if country = ''All'' then [BASE_URL @ ''orthophoto/'']
         else [BASE_URL @ ''orthophoto/images/'' @ country @ ''/'',
               BASE_URL @ ''orthophoto/masks/'' @ country @ ''/''])
      else if sensor = ''s2'' then
        (if country = ''All'' then [BASE_URL @ ''sentinel2/'']
         else [BASE_URL @ ''sentinel2/images/'' @ country @ ''/'',
               BASE_URL @ ''sentinel2/masks/'' @ country @ ''/''])
      else [])"

section \<open>Program state and environment\<close>

text \<open>
  Exceptions the program lets escape: \<open>ValueError\<close> from the argument check,
  \<open>RequestException\<close> from \<^verbatim>\<open>requests.get\<close>, \<open>KeyError\<close> from \<^verbatim>\<open>i.attrs['href']\<close> on an anchor
  without target, \<open>RecursionError\<close> when \<^verbatim>\<open>scrape\<close> nests deeper than the interpreter allows,
  \<open>OSError\<close> from the file system, and \<open>OtherError\<close> for whatever else a download raises.
\<close>

datatype error = ValueError | RequestException | KeyError | RecursionError | OSError | OtherError

text \<open>
  The variables of one call (\<open>urls\<close>, \<open>url_fns\<close>, \<open>failed_fns\<close>) followed by its effects on
  the outside world: the listing requests sent, the directories made, the files on disk,
  the calls of \<^verbatim>\<open>download_file\<close> (URL and destination) and the pauses taken.
\<close>

record state =
  urls :: "string list"
  url_fns :: "string list"
  failed_fns :: "string list"
  requests :: "string list"
  made_dirs :: "string list"
  files :: "string \<rightharpoonup> string"
  downloads :: "(string \<times> string) list"
  sleeps :: "nat list"

text \<open>The outcome of \<^verbatim>\<open>urllib.request.urlopen(url)\<close> followed by \<^verbatim>\<open>read()\<close>.\<close>

datatype fetch = Body string | URLError | Raises

text \<open>
  What the program cannot decide itself.  \<open>listing site k\<close> is the answer to the \<open>k\<close>-th
  request (counting from 0) for the directory listing \<open>site\<close>: the targets of its anchors
  in document order (\<open>None\<close> for an anchor without \<^verbatim>\<open>href\<close>), or \<open>None\<close> when the request
  raises.  \<open>urlopen url k\<close> is the outcome of the \<open>k\<close>-th download attempt of \<open>url\<close>.
  \<open>can_open ds p\<close> tells whether \<^verbatim>\<open>open(p, 'wb')\<close> succeeds once the directories \<open>ds\<close> have been
  made, \<open>can_mkdir p\<close> whether \<^verbatim>\<open>Path(p).mkdir(parents=True, exist_ok=True)\<close> succeeds, and
  \<open>recursion_limit\<close> is the nesting depth of \<^verbatim>\<open>scrape\<close> the interpreter allows.
\<close>

record env =
  listing :: "string \<Rightarrow> nat \<Rightarrow> string option list option"
  urlopen :: "string \<Rightarrow> nat \<Rightarrow> fetch"
  can_open :: "string list \<Rightarrow> string \<Rightarrow> bool"
  can_mkdir :: "string \<Rightarrow> bool"
  recursion_limit :: nat

section \<open>Tree scraper\<close>

text \<open>
  \<^verbatim>\<open>scrape(site)\<close> and its loop over the anchors of the listing.  The first argument after
  the environment is the nesting depth still available.  A result is the state reached
  and the exception that ended the call, if any.
\<close>

fun scrape :: "env \<Rightarrow> nat \<Rightarrow> string \<Rightarrow> state \<Rightarrow> state \<times> error option"
  and scrape_links :: "env \<Rightarrow> nat \<Rightarrow> string \<Rightarrow> string option list \<Rightarrow> state \<Rightarrow> state \<times> error option"
where
  "scrape e 0 site st = (st, Some RecursionError)"
| "scrape e (Suc d) site st =
     (let k = count_list (requests st) site;
          st1 = st\<lparr>requests := requests st @ [site]\<rparr>
      in case listing e site k of
           None \<Rightarrow> (st1, Some RequestException)
         | Some anchors \<Rightarrow> scrape_links e d site anchors st1)"
| "scrape_links e d site [] st = (st, None)"
| "scrape_links e d site (None # rest) st = (st, Some KeyError)"
| "scrape_links e d site (Some href # rest) st =
     (case (if endswith href ''/'' \<and> site @ href \<notin> set (urls st)
            then scrape e d (site @ href) (st\<lparr>urls := urls st @ [site @ href]\<rparr>)
            else (st, None)) of
        (st1, Some err) \<Rightarrow> (st1, Some err)
      | (st1, None) \<Rightarrow>
          scrape_links e d site rest
            (if endswith href ''tif'' \<or> endswith href ''nc''
             then st1\<lparr>url_fns := url_fns st1 @ [site @ href]\<rparr> else st1))"

text \<open>
  The loop \<^verbatim>\<open>for url in urls: scrape(url)\<close>.  A Python \<^verbatim>\<open>for\<close> over a list keeps an index and
  stops when the index reaches the current length, so URLs that \<^verbatim>\<open>scrape\<close> appends to
  \<open>urls\<close> during the loop are iterated as well.  \<open>i\<close> is that index.  The loop need not end;
  \<open>None\<close> is a run that never returns.
\<close>

partial_function (option) scrape_all :: "env \<Rightarrow> nat \<Rightarrow> state \<Rightarrow> (state \<times> error option) option" where
  "scrape_all e i st =
     (if i < length (urls st)
      then (case scrape e (recursion_limit e) (urls st ! i) st of
              (st1, Some err) \<Rightarrow> Some (st1, Some err)
            | (st1, None) \<Rightarrow> scrape_all e (Suc i) st1)
      else Some (st, None))"

section \<open>Path translation and directory creation\<close>

text \<open>The root directory with a trailing separator.\<close>

definition root_prefix :: "string \<Rightarrow> string" where
  "root_prefix dir = (if endswith dir ''/'' then dir else dir @ ''/'')"

text \<open>The destination \<open>fn\<close> the download loops compute for a file URL.\<close>

definition file_path :: "string \<Rightarrow> string \<Rightarrow> string" where
  "file_path dir url_fn = replace url_fn BASE_URL (root_prefix dir)"

text \<open>The path computed for a directory URL that passes both filters.\<close>

definition dir_path :: "string \<Rightarrow> string \<Rightarrow> string" where
  "dir_path dir url = replace (replace url BASE_URL (root_prefix dir)) ''DRLL/'' ''''"

text \<open>The list \<open>subdirs\<close> built by the two comprehensions.\<close>

definition subdirs :: "string \<Rightarrow> string list \<Rightarrow> string list" where
  "subdirs dir us =
     map (\<lambda>subdir. replace subdir ''DRLL/'' '''')
       (filter (\<lambda>subdir. \<not> contains ''ftp'' subdir)
         (map (\<lambda>i. replace i BASE_URL (root_prefix dir))
           (filter (\<lambda>i. \<not> endswith i ''DRLL/'') us)))"

fun mkdirs :: "env \<Rightarrow> string list \<Rightarrow> state \<Rightarrow> state \<times> error option" where
  "mkdirs e [] st = (st, None)"
| "mkdirs e (subdir # rest) st =
     (if can_mkdir e subdir
      then mkdirs e rest (st\<lparr>made_dirs := made_dirs st @ [subdir]\<rparr>)
      else (st, Some OSError))"

section \<open>Download engine\<close>

text \<open>
  \<^verbatim>\<open>download_file\<close>: a \<^verbatim>\<open>URLError\<close> is caught inside and only printed, so the call returns
  normally without writing; any other exception of the fetch, and a failing \<^verbatim>\<open>open\<close>,
  escape to the caller.
\<close>

definition download_file :: "env \<Rightarrow> string \<Rightarrow> string \<Rightarrow> state \<Rightarrow> state \<times> error option" where
  "download_file e url dst_path st =
     (let k = count_list (map fst (downloads st)) url;
          st1 = st\<lparr>downloads := downloads st @ [(url, dst_path)]\<rparr>
      in case urlopen e url k of
           URLError \<Rightarrow> (st1, None)
         | Raises \<Rightarrow> (st1, Some OtherError)
         | Body data \<Rightarrow>
             if can_open e (made_dirs st) dst_path
             then (st1\<lparr>files := (files st1)(dst_path \<mapsto> data)\<rparr>, None)
             else (st1, Some OSError))"

text \<open>The first loop over \<open>url_fns\<close>: an escaping exception costs a pause of 20 and is recorded.\<close>

fun first_pass :: "env \<Rightarrow> string \<Rightarrow> string list \<Rightarrow> state \<Rightarrow> state" where
  "first_pass e dir [] st = st"
| "first_pass e dir (url_fn # rest) st =
     (case download_file e url_fn (file_path dir url_fn) st of
        (st1, None) \<Rightarrow> first_pass e dir rest st1
      | (st1, Some err) \<Rightarrow>
          first_pass e dir rest
            (st1\<lparr>sleeps := sleeps st1 @ [20], failed_fns := failed_fns st1 @ [url_fn]\<rparr>))"

text \<open>The second loop, over \<open>failed_fns\<close>: an escaping exception is dropped.\<close>

fun retry_pass :: "env \<Rightarrow> string \<Rightarrow> string list \<Rightarrow> state \<Rightarrow> state" where
  "retry_pass e dir [] st = st"
| "retry_pass e dir (url_fn # rest) st =
     (case download_file e url_fn (file_path dir url_fn) st of
        (st1, None) \<Rightarrow> retry_pass e dir rest st1
      | (st1, Some err) \<Rightarrow> retry_pass e dir rest st1)"

definition download_all :: "env \<Rightarrow> string \<Rightarrow> state \<Rightarrow> state" where
  "download_all e dir st =
     (let st1 = first_pass e dir (url_fns st) (st\<lparr>failed_fns := []\<rparr>)
      in retry_pass e dir (failed_fns st1) st1)"

section \<open>The entry point\<close>

definition download_ai4boundaries ::
  "env \<Rightarrow> string \<Rightarrow> string \<Rightarrow> string \<Rightarrow> state \<Rightarrow> (state \<times> error option) option" where
  "download_ai4boundaries e dir sensor country st =
     (if sensor \<notin> set valid_sensors then Some (st, Some ValueError)
      else if country \<notin> set valid_countries then Some (st, Some ValueError)
      else
        (case scrape_all e 0 (st\<lparr>urls := select_seeds sensor country, url_fns := []\<rparr>) of
           None \<Rightarrow> None
         | Some (st1, Some err) \<Rightarrow> Some (st1, Some err)
         | Some (st1, None) \<Rightarrow>
             (case mkdirs e (subdirs dir (urls st1)) st1 of
                (st2, Some err) \<Rightarrow> Some (st2, Some err)
              | (st2, None) \<Rightarrow> Some (download_all e dir st2, None))))"

section \<open>Example servers\<close>

text \<open>A state with no history: nothing requested, an empty disk.\<close>

definition empty_state :: state where
  "empty_state = \<lparr>urls = [], url_fns = [], failed_fns = [], requests = [], made_dirs = [],
     files = Map.empty, downloads = [], sleeps = []\<rparr>"

text \<open>
  A server whose catalog root lists the sub-directory \<open>a/\<close> and the file \<open>y.nc\<close>, and whose
  directory \<open>a/\<close> lists the file \<open>x.tif\<close>.  Every download and every file-system call
  succeeds.
\<close>

definition tree_listing :: "string \<Rightarrow> nat \<Rightarrow> string option list option" where
  "tree_listing site k =
     (if site = BASE_URL then Some [Some ''a/'', Some ''y.nc'']
      else if site = BASE_URL @ ''a/'' then Some [Some ''x.tif'']
      else Some [])"

definition tree_env :: env where
  "tree_env = \<lparr>listing = tree_listing, urlopen = (\<lambda>url k. Body ''data''),
     can_open = (\<lambda>ds p. True), can_mkdir = (\<lambda>p. True), recursion_limit = 10\<rparr>"

definition tree_scraped :: state where
  "tree_scraped = \<lparr>urls = [BASE_URL, BASE_URL @ ''a/''],
     url_fns = [BASE_URL @ ''a/x.tif'', BASE_URL @ ''y.nc'', BASE_URL @ ''a/x.tif''],
     failed_fns = [],
     requests = [BASE_URL, BASE_URL @ ''a/'', BASE_URL @ ''a/''],
     made_dirs = [], files = Map.empty, downloads = [], sleeps = []\<rparr>"

text \<open>
  A server whose catalog root lists the single file \<open>y.nc\<close>.  The first download attempt of
  any URL ends in a \<^verbatim>\<open>URLError\<close>, every later one delivers the body.
\<close>

definition flaky_listing :: "string \<Rightarrow> nat \<Rightarrow> string option list option" where
  "flaky_listing site k = (if site = BASE_URL then Some [Some ''y.nc''] else Some [])"

definition flaky_env :: env where
  "flaky_env = \<lparr>listing = flaky_listing,
     urlopen = (\<lambda>url k. if k = 0 then URLError else Body ''data''),
     can_open = (\<lambda>ds p. True), can_mkdir = (\<lambda>p. True), recursion_limit = 10\<rparr>"

definition flaky_result :: state where
  "flaky_result = \<lparr>urls = [BASE_URL], url_fns = [BASE_URL @ ''y.nc''], failed_fns = [],
     requests = [BASE_URL], made_dirs = [''/data/''], files = Map.empty,
     downloads = [(BASE_URL @ ''y.nc'', ''/data/y.nc'')], sleeps = []\<rparr>"

text \<open>A server whose catalog root lists only the link \<open>../\<close> to its parent directory.\<close>

definition parent_listing :: "string \<Rightarrow> nat \<Rightarrow> string option list option" where
  "parent_listing site k = (if site = BASE_URL then Some [Some ''../''] else Some [])"

definition parent_env :: env where
  "parent_env = \<lparr>listing = parent_listing, urlopen = (\<lambda>url k. Body ''data''),
     can_open = (\<lambda>ds p. True), can_mkdir = (\<lambda>p. True), recursion_limit = 10\<rparr>"

text \<open>The run against the first server with a root directory whose name contains \<open>ftp\<close>.\<close>

definition ftp_result :: state where
  "ftp_result = \<lparr>urls = [BASE_URL, BASE_URL @ ''a/''],
     url_fns = [BASE_URL @ ''a/x.tif'', BASE_URL @ ''y.nc'', BASE_URL @ ''a/x.tif''],
     failed_fns = [],
     requests = [BASE_URL, BASE_URL @ ''a/'', BASE_URL @ ''a/''],
     made_dirs = [],
     files = [''/ftp_data/y.nc'' \<mapsto> ''data'', ''/ftp_data/a/x.tif'' \<mapsto> ''data''],
     downloads = [(BASE_URL @ ''a/x.tif'', ''/ftp_data/a/x.tif''),
                  (BASE_URL @ ''y.nc'', ''/ftp_data/y.nc''),
                  (BASE_URL @ ''a/x.tif'', ''/ftp_data/a/x.tif'')],
     sleeps = []\<rparr>"

section \<open>Facts about the string functions\<close>

lemma replace_Nil: "old \<noteq> [] \<Longrightarrow> replace [] old new = []"
  by (subst replace.simps) simp

lemma replace_prefix: "old \<noteq> [] \<Longrightarrow> replace (old @ r) old new = new @ replace r old new"
  by (subst replace.simps) simp

lemma replace_skip:
  "old \<noteq> [] \<Longrightarrow> \<not> prefix old (c # cs) \<Longrightarrow> replace (c # cs) old new = c # replace cs old new"
  by (subst replace.simps) simp

text \<open>A string in which \<open>old\<close> does not occur is left as it is.\<close>

lemma replace_absent: "old \<noteq> [] \<Longrightarrow> \<not> contains old s \<Longrightarrow> replace s old new = s"
proof (induction s)
  case Nil
  then show ?case by (simp add: replace_Nil)
next
  case (Cons c cs)
  from Cons.prems have np: "\<not> prefix old (c # cs)" and ns: "\<not> contains old cs"
    by (auto simp: contains_def sublist_Cons_right)
  from Cons.IH [OF Cons.prems(1) ns] show ?case
    by (simp add: replace_skip [OF Cons.prems(1) np])
qed

lemma BASE_URL_nonempty: "BASE_URL \<noteq> []"
  by (simp add: BASE_URL_def)

lemma root_prefix_last: "root_prefix dir \<noteq> [] \<and> last (root_prefix dir) = CHR ''/''"
proof (cases "endswith dir ''/''")
  case True
  then obtain zs where "dir = zs @ ''/''" by (auto simp: endswith_def suffix_def)
  with True show ?thesis by (simp add: root_prefix_def)
next
  case False
  then show ?thesis by (simp add: root_prefix_def)
qed

text \<open>
  The only separator of \<open>DRLL/\<close> is its last character, so an occurrence that starts inside
  a block ending in a separator ends inside that block.
\<close>

lemma drll_split:
  assumes "d @ us = ''DRLL/''" "d \<noteq> []" "last d = CHR ''/''"
  shows "us = []"
  using assms by (auto simp: append_eq_Cons_conv split: if_splits)

lemma drll_prefix_inside:
  assumes "d \<noteq> []" "last d = CHR ''/''" "prefix ''DRLL/'' (d @ r)"
  shows "prefix ''DRLL/'' d"
proof -
  from assms(3) consider "prefix ''DRLL/'' d" | us where "''DRLL/'' = d @ us" "prefix us r"
    by (auto simp: prefix_append)
  then show ?thesis
  proof cases
    case 1
    then show ?thesis .
  next
    case 2
    from drll_split [of d us] 2(1) assms(1,2) have "us = []" by metis
    with 2(1) have "d = ''DRLL/''" by (simp only: append_Nil2)
    then show ?thesis by (simp only: prefix_order.refl)
  qed
qed

text \<open>
  Replacement splits at a boundary that no occurrence of \<open>old\<close> crosses: here the boundary
  after a block \<open>d\<close> that is empty or ends in the character \<open>sep\<close>.
\<close>

lemma replace_append_boundary:
  assumes inside: "\<And>d. d \<noteq> [] \<Longrightarrow> last d = sep \<Longrightarrow> prefix old (d @ r) \<Longrightarrow> prefix old d"
    and ne: "old \<noteq> []"
  shows "d = [] \<or> last d = sep \<Longrightarrow>
    replace (d @ r) old new = replace d old new @ replace r old new"
proof (induction d rule: length_induct)
  case (1 s)
  show ?case
  proof (cases "prefix old s")
    case True
    then obtain t where s: "s = old @ t" by (auto simp: prefix_def)
    have t: "t = [] \<or> last t = sep"
    proof (cases "t = []")
      case True
      then show ?thesis by simp
    next
      case False
      then have "last (old @ t) = last t" by simp
      moreover have "last s = sep" using "1.prems" s False by auto
      ultimately show ?thesis using s by simp
    qed
    have "length t < length s" using s ne by simp
    with "1.IH" t
    have ih: "replace (t @ r) old new = replace t old new @ replace r old new"
      by blast
    have a: "replace (s @ r) old new = new @ replace (t @ r) old new"
      using replace_prefix [OF ne, of "t @ r" new] s by simp
    have b: "replace s old new = new @ replace t old new"
      using replace_prefix [OF ne, of t new] s by simp
    show ?thesis using a b ih by simp
  next
    case False
    show ?thesis
    proof (cases s)
      case Nil
      then show ?thesis by (simp add: replace_Nil [OF ne])
    next
      case (Cons c cs)
      have "s \<noteq> []" "last s = sep" using "1.prems" Cons by auto
      with inside [of s] False have "\<not> prefix old (s @ r)" by blast
      then have np: "\<not> prefix old (c # (cs @ r))" using Cons by simp
      have cs: "cs = [] \<or> last cs = sep" using "1.prems" Cons by (auto split: if_splits)
      have "length cs < length s" using Cons by simp
      with "1.IH" cs
      have ih: "replace (cs @ r) old new = replace cs old new @ replace r old new"
        by blast
      have a: "replace (s @ r) old new = c # replace (cs @ r) old new"
        using replace_skip [OF ne np, of new] Cons by simp
      have b: "replace s old new = c # replace cs old new"
        using replace_skip [OF ne, of c cs new] False Cons by simp
      show ?thesis using a b ih by simp
    qed
  qed
qed

lemma replace_drll_append:
  "d = [] \<or> last d = CHR ''/'' \<Longrightarrow>
   replace (d @ r) ''DRLL/'' new = replace d ''DRLL/'' new @ replace r ''DRLL/'' new"
  by (rule replace_append_boundary [where sep = "CHR ''/''"]) (simp_all add: drll_prefix_inside)

text \<open>The two translations on a URL under the base prefix whose remainder is plain.\<close>

lemma file_path_under_base:
  assumes "\<not> contains BASE_URL r"
  shows "file_path dir (BASE_URL @ r) = root_prefix dir @ r"
  using assms by (simp add: file_path_def replace_prefix BASE_URL_nonempty replace_absent)

lemma dir_path_under_base:
  assumes "\<not> contains BASE_URL r" "\<not> contains ''DRLL/'' r"
  shows "dir_path dir (BASE_URL @ r) = replace (root_prefix dir) ''DRLL/'' '''' @ r"
proof -
  have "replace (BASE_URL @ r) BASE_URL (root_prefix dir) = root_prefix dir @ r"
    using assms(1) by (simp add: replace_prefix BASE_URL_nonempty replace_absent)
  moreover have "replace (root_prefix dir @ r) ''DRLL/'' '''' =
      replace (root_prefix dir) ''DRLL/'' '''' @ replace r ''DRLL/'' ''''"
    using root_prefix_last [of dir] by (intro replace_drll_append) simp
  moreover have "replace r ''DRLL/'' '''' = r"
    using assms(2) by (intro replace_absent) simp_all
  ultimately show ?thesis by (simp add: dir_path_def)
qed

section \<open>Seed selection and argument check\<close>

text \<open>
  Claim C7.  The seed list is a function of the sensor and the country alone: the catalog
  root for (All, All); the root of the sensor's sub-tree for (ortho, All) and (s2, All);
  the two seeds images/X and masks/X of the sensor for a specific country X; and no seed
  at all for sensor All with a specific country X.
\<close>

theorem select_seeds_cases:
  assumes "country \<noteq> ''All''"
  shows "select_seeds ''All'' ''All'' = [BASE_URL] \<and>
    select_seeds ''ortho'' ''All'' = [BASE_URL @ ''orthophoto/''] \<and>
    select_seeds ''s2'' ''All'' = [BASE_URL @ ''sentinel2/''] \<and>
    select_seeds ''ortho'' country =
      [BASE_URL @ ''orthophoto/images/'' @ country @ ''/'',
       BASE_URL @ ''orthophoto/masks/'' @ country @ ''/''] \<and>
    select_seeds ''s2'' country =
      [BASE_URL @ ''sentinel2/images/'' @ country @ ''/'',
       BASE_URL @ ''sentinel2/masks/'' @ country @ ''/''] \<and>
    select_seeds ''All'' country = []"
  using assms by (simp add: select_seeds_def)

theorem select_seeds_cases_witness:
  "''AT'' \<noteq> ''All'' \<and> ''AT'' \<in> set valid_countries \<and>
   select_seeds ''ortho'' ''AT'' =
     [BASE_URL @ ''orthophoto/images/AT/'', BASE_URL @ ''orthophoto/masks/AT/''] \<and>
   select_seeds ''s2'' ''AT'' =
     [BASE_URL @ ''sentinel2/images/AT/'', BASE_URL @ ''sentinel2/masks/AT/''] \<and>
   select_seeds ''All'' ''AT'' = []"
proof -
  have ne: "''AT'' \<noteq> ''All''" by simp
  from select_seeds_cases [OF ne] show ?thesis
    by (simp add: valid_countries_def)
qed

text \<open>
  Claim C8.  A sensor or country outside the enumerated values makes the call fail with
  \<open>ValueError\<close> in the state it started from: no request sent, no directory made, no file
  written.
\<close>

theorem invalid_argument_no_effect:
  assumes "sensor \<notin> set valid_sensors \<or> country \<notin> set valid_countries"
  shows "download_ai4boundaries e dir sensor country st = Some (st, Some ValueError)"
  using assms by (auto simp: download_ai4boundaries_def)

theorem invalid_argument_no_effect_witness:
  "''landsat'' \<notin> set valid_sensors \<and>
   download_ai4boundaries tree_env ''/data'' ''landsat'' ''All'' empty_state =
     Some (empty_state, Some ValueError)"
proof -
  have h: "''landsat'' \<notin> set valid_sensors" by (simp add: valid_sensors_def)
  then have "''landsat'' \<notin> set valid_sensors \<or> ''All'' \<notin> set valid_countries" by simp
  from invalid_argument_no_effect [OF this] h show ?thesis by simp
qed

section \<open>What each stage leaves untouched\<close>

lemma download_file_frame:
  assumes "download_file e u p st = (st1, r)"
  shows "urls st1 = urls st \<and> url_fns st1 = url_fns st \<and> failed_fns st1 = failed_fns st \<and>
    requests st1 = requests st \<and> made_dirs st1 = made_dirs st \<and> sleeps st1 = sleeps st \<and>
    downloads st1 = downloads st @ [(u, p)]"
  using assms by (auto simp: download_file_def Let_def split: fetch.splits if_splits)

lemma first_pass_frame:
  "urls (first_pass e dir us st) = urls st \<and> url_fns (first_pass e dir us st) = url_fns st \<and>
   requests (first_pass e dir us st) = requests st \<and>
   made_dirs (first_pass e dir us st) = made_dirs st \<and>
   downloads (first_pass e dir us st) = downloads st @ map (\<lambda>u. (u, file_path dir u)) us"
proof (induction us arbitrary: st)
  case Nil
  show ?case by simp
next
  case (Cons u us)
  obtain st1 r where d: "download_file e u (file_path dir u) st = (st1, r)"
    by (cases "download_file e u (file_path dir u) st")
  note f = download_file_frame [OF d]
  show ?case
  proof (cases r)
    case None
    with d f Cons.IH [of st1] show ?thesis by simp
  next
    case (Some err)
    with d f Cons.IH [of "st1\<lparr>sleeps := sleeps st1 @ [20], failed_fns := failed_fns st1 @ [u]\<rparr>"]
    show ?thesis by simp
  qed
qed

lemma retry_pass_frame:
  "urls (retry_pass e dir us st) = urls st \<and> url_fns (retry_pass e dir us st) = url_fns st \<and>
   failed_fns (retry_pass e dir us st) = failed_fns st \<and>
   requests (retry_pass e dir us st) = requests st \<and>
   made_dirs (retry_pass e dir us st) = made_dirs st \<and>
   sleeps (retry_pass e dir us st) = sleeps st \<and>
   downloads (retry_pass e dir us st) = downloads st @ map (\<lambda>u. (u, file_path dir u)) us"
proof (induction us arbitrary: st)
  case Nil
  show ?case by simp
next
  case (Cons u us)
  obtain st1 r where d: "download_file e u (file_path dir u) st = (st1, r)"
    by (cases "download_file e u (file_path dir u) st")
  note f = download_file_frame [OF d]
  from d f Cons.IH [of st1] show ?case by (cases r) simp_all
qed

text \<open>
  The engine calls \<^verbatim>\<open>download_file\<close> once for every entry of \<open>url_fns\<close> and once more for
  every recorded failure, each time with the destination \<open>file_path\<close>; it makes no
  directory and leaves the scraped lists alone.
\<close>

lemma download_all_frame:
  "urls (download_all e dir st) = urls st \<and> url_fns (download_all e dir st) = url_fns st \<and>
   requests (download_all e dir st) = requests st \<and>
   made_dirs (download_all e dir st) = made_dirs st \<and>
   downloads (download_all e dir st) =
     downloads st @ map (\<lambda>u. (u, file_path dir u)) (url_fns st @ failed_fns (download_all e dir st))"
  using first_pass_frame [of e dir "url_fns st" "st\<lparr>failed_fns := []\<rparr>"]
    retry_pass_frame [of e dir "failed_fns (first_pass e dir (url_fns st) (st\<lparr>failed_fns := []\<rparr>))"
      "first_pass e dir (url_fns st) (st\<lparr>failed_fns := []\<rparr>)"]
  by (simp add: download_all_def Let_def)

text \<open>Every pause of the first loop is a pause of 20 for one recorded failure.\<close>

lemma first_pass_cooldowns:
  "\<exists>fs. failed_fns (first_pass e dir us st) = failed_fns st @ fs \<and>
     sleeps (first_pass e dir us st) = sleeps st @ replicate (length fs) 20"
proof (induction us arbitrary: st)
  case Nil
  show ?case by simp
next
  case (Cons u us)
  obtain st1 r where d: "download_file e u (file_path dir u) st = (st1, r)"
    by (cases "download_file e u (file_path dir u) st")
  note f = download_file_frame [OF d]
  show ?case
  proof (cases r)
    case None
    with d f Cons.IH [of st1] show ?thesis by simp
  next
    case (Some err)
    let ?st2 = "st1\<lparr>sleeps := sleeps st1 @ [20], failed_fns := failed_fns st1 @ [u]\<rparr>"
    from Cons.IH [of ?st2] obtain fs where
      fs: "failed_fns (first_pass e dir us ?st2) = failed_fns ?st2 @ fs"
        "sleeps (first_pass e dir us ?st2) = sleeps ?st2 @ replicate (length fs) 20"
      by blast
    have "failed_fns (first_pass e dir (u # us) st) = failed_fns st @ (u # fs) \<and>
      sleeps (first_pass e dir (u # us) st) = sleeps st @ replicate (length (u # fs)) 20"
      using d Some f fs by (simp add: replicate_append_same [symmetric] del: replicate_append_same)
    then show ?thesis by blast
  qed
qed

text \<open>Scraping touches nothing but \<open>urls\<close>, \<open>url_fns\<close> and the request log.\<close>

lemma scrape_frame:
  "scrape e d site st = (st', r) \<Longrightarrow>
     made_dirs st' = made_dirs st \<and> downloads st' = downloads st \<and> files st' = files st \<and>
     sleeps st' = sleeps st \<and> failed_fns st' = failed_fns st"
  "scrape_links e d site anchors st = (st', r) \<Longrightarrow>
     made_dirs st' = made_dirs st \<and> downloads st' = downloads st \<and> files st' = files st \<and>
     sleeps st' = sleeps st \<and> failed_fns st' = failed_fns st"
proof (induction e d site st and e d site anchors st arbitrary: st' r and st' r
    rule: scrape_scrape_links.induct)
  case (1 e site st)
  then show ?case by simp
next
  case (2 e d site st)
  show ?case
  proof (cases "listing e site (count_list (requests st) site)")
    case None
    with "2.prems" show ?thesis by (auto simp: Let_def)
  next
    case (Some anchors)
    with "2.prems"
    have l: "scrape_links e d site anchors (st\<lparr>requests := requests st @ [site]\<rparr>) = (st', r)"
      by (simp add: Let_def)
    from "2.IH" [OF refl refl Some l] show ?thesis by simp
  qed
next
  case (3 e d site st)
  then show ?case by simp
next
  case (4 e d site rest st)
  then show ?case by simp
next
  case (5 e d site href rest st)
  show ?case
  proof (cases "endswith href ''/'' \<and> site @ href \<notin> set (urls st)")
    case True
    obtain st1 r1 where s: "scrape e d (site @ href) (st\<lparr>urls := urls st @ [site @ href]\<rparr>) = (st1, r1)"
      by (cases "scrape e d (site @ href) (st\<lparr>urls := urls st @ [site @ href]\<rparr>)")
    note f1 = "5.IH"(1) [OF True s]
    show ?thesis
    proof (cases r1)
      case None
      let ?st2 = "if endswith href ''tif'' \<or> endswith href ''nc''
        then st1\<lparr>url_fns := url_fns st1 @ [site @ href]\<rparr> else st1"
      have l: "scrape_links e d site rest ?st2 = (st', r)"
        using "5.prems" True s None by simp
      have "made_dirs st' = made_dirs ?st2 \<and> downloads st' = downloads ?st2 \<and>
        files st' = files ?st2 \<and> sleeps st' = sleeps ?st2 \<and> failed_fns st' = failed_fns ?st2"
        using "5.IH"(2) [OF _ refl l] True s None by simp
      with f1 show ?thesis by simp
    next
      case (Some err)
      then show ?thesis using "5.prems" True s f1 by simp
    qed
  next
    case False
    let ?st2 = "if endswith href ''tif'' \<or> endswith href ''nc''
      then st\<lparr>url_fns := url_fns st @ [site @ href]\<rparr> else st"
    have l: "scrape_links e d site rest ?st2 = (st', r)"
      using "5.prems" False by auto
    have "made_dirs st' = made_dirs ?st2 \<and> downloads st' = downloads ?st2 \<and>
      files st' = files ?st2 \<and> sleeps st' = sleeps ?st2 \<and> failed_fns st' = failed_fns ?st2"
      using "5.IH"(2) [OF _ refl l] False by auto
    then show ?thesis by simp
  qed
qed

text \<open>Every URL that scraping adds to \<open>urls\<close> extends the URL of the listing it came from.\<close>

lemma scrape_urls_under_base:
  "scrape e d site st = (st', r) \<Longrightarrow> prefix BASE_URL site \<Longrightarrow>
     (\<forall>u\<in>set (urls st). prefix BASE_URL u) \<Longrightarrow> (\<forall>u\<in>set (urls st'). prefix BASE_URL u)"
  "scrape_links e d site anchors st = (st', r) \<Longrightarrow> prefix BASE_URL site \<Longrightarrow>
     (\<forall>u\<in>set (urls st). prefix BASE_URL u) \<Longrightarrow> (\<forall>u\<in>set (urls st'). prefix BASE_URL u)"
proof (induction e d site st and e d site anchors st arbitrary: st' r and st' r
    rule: scrape_scrape_links.induct)
  case (1 e site st)
  then show ?case by simp
next
  case (2 e d site st)
  show ?case
  proof (cases "listing e site (count_list (requests st) site)")
    case None
    with "2.prems" show ?thesis by (auto simp: Let_def)
  next
    case (Some anchors)
    with "2.prems"(1)
    have l: "scrape_links e d site anchors (st\<lparr>requests := requests st @ [site]\<rparr>) = (st', r)"
      by (simp add: Let_def)
    from "2.IH" [OF refl refl Some l "2.prems"(2)] "2.prems"(3) show ?thesis by simp
  qed
next
  case (3 e d site st)
  then show ?case by simp
next
  case (4 e d site rest st)
  then show ?case by simp
next
  case (5 e d site href rest st)
  have ps: "prefix BASE_URL (site @ href)" using "5.prems"(2) by (simp add: prefix_prefix)
  show ?case
  proof (cases "endswith href ''/'' \<and> site @ href \<notin> set (urls st)")
    case True
    obtain st1 r1 where s: "scrape e d (site @ href) (st\<lparr>urls := urls st @ [site @ href]\<rparr>) = (st1, r1)"
      by (cases "scrape e d (site @ href) (st\<lparr>urls := urls st @ [site @ href]\<rparr>)")
    have u1: "\<forall>u\<in>set (urls st1). prefix BASE_URL u"
      using "5.IH"(1) [OF True s ps] "5.prems"(3) ps by simp
    show ?thesis
    proof (cases r1)
      case None
      let ?st2 = "if endswith href ''tif'' \<or> endswith href ''nc''
        then st1\<lparr>url_fns := url_fns st1 @ [site @ href]\<rparr> else st1"
      have l: "scrape_links e d site rest ?st2 = (st', r)"
        using "5.prems"(1) True s None by simp
      have u2: "\<forall>u\<in>set (urls ?st2). prefix BASE_URL u" using u1 by simp
      show ?thesis
        using "5.IH"(2) [OF _ refl l "5.prems"(2) u2] True s None by simp
    next
      case (Some err)
      then show ?thesis using "5.prems"(1) True s u1 by simp
    qed
  next
    case False
    let ?st2 = "if endswith href ''tif'' \<or> endswith href ''nc''
      then st\<lparr>url_fns := url_fns st @ [site @ href]\<rparr> else st"
    have l: "scrape_links e d site rest ?st2 = (st', r)"
      using "5.prems"(1) False by auto
    have u2: "\<forall>u\<in>set (urls ?st2). prefix BASE_URL u" using "5.prems"(3) by simp
    show ?thesis
      using "5.IH"(2) [OF _ refl l "5.prems"(2) u2] False by auto
  qed
qed

text \<open>The same two facts for the loop over \<open>urls\<close>, whenever it returns.\<close>

lemma scrape_all_inv:
  assumes "scrape_all e i st = Some y"
  shows "made_dirs (fst y) = made_dirs st \<and> downloads (fst y) = downloads st \<and>
    ((\<forall>u\<in>set (urls st). prefix BASE_URL u) \<longrightarrow> (\<forall>u\<in>set (urls (fst y)). prefix BASE_URL u))"
proof (rule scrape_all.raw_induct [where P = "\<lambda>e i st y.
    made_dirs (fst y) = made_dirs st \<and> downloads (fst y) = downloads st \<and>
    ((\<forall>u\<in>set (urls st). prefix BASE_URL u) \<longrightarrow> (\<forall>u\<in>set (urls (fst y)). prefix BASE_URL u))",
    OF _ assms])
  fix loop :: "env \<Rightarrow> nat \<Rightarrow> state \<Rightarrow> (state \<times> error option) option"
  fix e i st y
  assume IH: "\<And>e i st y. loop e i st = Some y \<Longrightarrow>
    made_dirs (fst y) = made_dirs st \<and> downloads (fst y) = downloads st \<and>
    ((\<forall>u\<in>set (urls st). prefix BASE_URL u) \<longrightarrow> (\<forall>u\<in>set (urls (fst y)). prefix BASE_URL u))"
  assume body: "(if i < length (urls st)
      then case scrape e (recursion_limit e) (urls st ! i) st of
           (st1, None) \<Rightarrow> loop e (Suc i) st1
         | (st1, Some err) \<Rightarrow> Some (st1, Some err)
      else Some (st, None)) = Some y"
  show "made_dirs (fst y) = made_dirs st \<and> downloads (fst y) = downloads st \<and>
    ((\<forall>u\<in>set (urls st). prefix BASE_URL u) \<longrightarrow> (\<forall>u\<in>set (urls (fst y)). prefix BASE_URL u))"
  proof (cases "i < length (urls st)")
    case False
    with body show ?thesis by auto
  next
    case True
    obtain st1 r1 where s: "scrape e (recursion_limit e) (urls st ! i) st = (st1, r1)"
      by (cases "scrape e (recursion_limit e) (urls st ! i) st")
    note f = scrape_frame(1) [OF s]
    have "urls st ! i \<in> set (urls st)" using True by simp
    then have u: "(\<forall>u\<in>set (urls st). prefix BASE_URL u) \<longrightarrow> (\<forall>u\<in>set (urls st1). prefix BASE_URL u)"
      using scrape_urls_under_base(1) [OF s] by blast
    show ?thesis
    proof (cases r1)
      case None
      with body True s have "loop e (Suc i) st1 = Some y" by simp
      note ih = IH [OF this]
      show ?thesis
      proof (intro conjI impI)
        show "made_dirs (fst y) = made_dirs st" using ih f by simp
        show "downloads (fst y) = downloads st" using ih f by simp
        assume "\<forall>u\<in>set (urls st). prefix BASE_URL u"
        with u have "\<forall>u\<in>set (urls st1). prefix BASE_URL u" by blast
        with ih show "\<forall>u\<in>set (urls (fst y)). prefix BASE_URL u" by blast
      qed
    next
      case (Some err)
      with body True s have "fst y = st1" by auto
      with f u show ?thesis by simp
    qed
  qed
qed

text \<open>A root directory that contains \<open>ftp\<close> makes every translated directory fail the filter.\<close>

lemma contains_root_prefix: "contains s dir \<Longrightarrow> contains s (root_prefix dir)"
  by (auto simp: root_prefix_def contains_def sublist_append)

lemma subdirs_ftp:
  assumes "contains ''ftp'' dir" and "\<forall>u\<in>set us. prefix BASE_URL u"
  shows "subdirs dir us = []"
proof -
  have "contains ''ftp'' (replace u BASE_URL (root_prefix dir))" if "u \<in> set us" for u
  proof -
    from that assms(2) obtain r where "u = BASE_URL @ r" by (auto simp: prefix_def)
    then have "replace u BASE_URL (root_prefix dir) = root_prefix dir @ replace r BASE_URL (root_prefix dir)"
      by (simp add: replace_prefix BASE_URL_nonempty)
    with contains_root_prefix [OF assms(1)] show ?thesis
      by (simp add: contains_def sublist_append)
  qed
  then show ?thesis by (auto simp: subdirs_def filter_empty_conv)
qed

lemma select_seeds_under_base: "\<forall>u\<in>set (select_seeds sensor country). prefix BASE_URL u"
  by (auto simp: select_seeds_def)

section \<open>A root directory that contains ftp\<close>

text \<open>
  Claim C10.  When the root directory contains \<open>ftp\<close>, every translated directory path
  is dropped by the filter, so a run makes no directory, whatever its outcome; a run that
  reaches the end has nevertheless called \<^verbatim>\<open>download_file\<close> for every scraped file URL
  (and once more for every recorded failure), each time with the unfiltered translation
  \<open>file_path\<close> as destination.
\<close>

theorem ftp_root_makes_no_directories:
  assumes "contains ''ftp'' dir"
    and "download_ai4boundaries e dir sensor country st = Some (st', r)"
  shows "made_dirs st' = made_dirs st \<and>
    (r = None \<longrightarrow>
       subdirs dir (urls st') = [] \<and>
       downloads st' =
         downloads st @ map (\<lambda>u. (u, file_path dir u)) (url_fns st' @ failed_fns st'))"
proof (cases "sensor \<in> set valid_sensors \<and> country \<in> set valid_countries")
  case False
  with assms(2) have "st' = st" "r = Some ValueError"
    by (auto simp: download_ai4boundaries_def split: if_splits)
  then show ?thesis by simp
next
  case True
  let ?st0 = "st\<lparr>urls := select_seeds sensor country, url_fns := []\<rparr>"
  from assms(2) True obtain y where sa: "scrape_all e 0 ?st0 = Some y"
    by (cases "scrape_all e 0 ?st0") (simp_all add: download_ai4boundaries_def)
  obtain st1 r1 where y: "y = (st1, r1)" by (cases y)
  have inv: "made_dirs st1 = made_dirs st" "downloads st1 = downloads st"
    "\<forall>u\<in>set (urls st1). prefix BASE_URL u"
    using scrape_all_inv [OF sa] y select_seeds_under_base [of sensor country] by simp_all
  show ?thesis
  proof (cases r1)
    case (Some err)
    with assms(2) True sa y have "st' = st1" "r = Some err"
      by (simp_all add: download_ai4boundaries_def)
    with inv show ?thesis by simp
  next
    case None
    have sd: "subdirs dir (urls st1) = []" by (rule subdirs_ftp [OF assms(1) inv(3)])
    with assms(2) True sa y None have res: "st' = download_all e dir st1" "r = None"
      by (simp_all add: download_ai4boundaries_def)
    note f = download_all_frame [of e dir st1]
    from res f inv sd show ?thesis by simp
  qed
qed

section \<open>Runs against the example servers\<close>

lemma replace_self: "old \<noteq> [] \<Longrightarrow> replace old old new = new"
  using replace_prefix [of old "[]" new] by (simp add: replace_Nil)

lemma replace_match:
  "old \<noteq> [] \<Longrightarrow> prefix old s \<Longrightarrow> replace s old new = new @ replace (drop (length old) s) old new"
  by (subst replace.simps) simp

lemma base_absent:
  "\<not> contains BASE_URL ''a/''" "\<not> contains BASE_URL ''b/''" "\<not> contains BASE_URL ''y.nc''"
  "\<not> contains BASE_URL ''a/x.tif''" "\<not> contains BASE_URL ''DRLL/a/''"
  by (simp_all add: contains_def BASE_URL_def sublist_Cons_right)

lemma base_not_drll: "\<not> endswith BASE_URL ''DRLL/''"
  by (simp add: endswith_def BASE_URL_def suffix_to_prefix)

lemma root_prefix_examples:
  "root_prefix ''/data'' = ''/data/''" "root_prefix ''/ftp_data'' = ''/ftp_data/''"
  "root_prefix ''/data/DRLL'' = ''/data/DRLL/''"
  by (simp_all add: root_prefix_def endswith_def suffix_to_prefix)

lemma tree_scrape:
  "scrape_all tree_env 0 (empty_state\<lparr>urls := select_seeds ''All'' ''All'', url_fns := []\<rparr>) =
   Some (tree_scraped, None)"
  by (simp add: scrape_all.simps tree_env_def tree_listing_def empty_state_def tree_scraped_def
      select_seeds_def endswith_def suffix_to_prefix eval_nat_numeral)

lemma flaky_scrape:
  "scrape_all flaky_env 0 (empty_state\<lparr>urls := select_seeds ''All'' ''All'', url_fns := []\<rparr>) =
   Some (empty_state\<lparr>urls := [BASE_URL], url_fns := [BASE_URL @ ''y.nc''],
     requests := [BASE_URL]\<rparr>, None)"
  by (simp add: scrape_all.simps flaky_env_def flaky_listing_def empty_state_def select_seeds_def
      endswith_def suffix_to_prefix eval_nat_numeral)

lemma ftp_subdirs: "subdirs ''/ftp_data'' (urls tree_scraped) = []"
  by (rule subdirs_ftp)
    (simp_all add: contains_def sublist_Cons_right tree_scraped_def)

lemma ftp_run:
  "download_ai4boundaries tree_env ''/ftp_data'' ''All'' ''All'' empty_state = Some (ftp_result, None)"
proof -
  have "download_all tree_env ''/ftp_data'' tree_scraped = ftp_result"
    by (simp add: download_all_def download_file_def Let_def tree_scraped_def tree_env_def
        ftp_result_def file_path_under_base base_absent root_prefix_examples)
  then show ?thesis
    by (simp add: download_ai4boundaries_def valid_sensors_def valid_countries_def
        tree_scrape ftp_subdirs)
qed

theorem ftp_root_makes_no_directories_witness:
  "contains ''ftp'' ''/ftp_data'' \<and>
   download_ai4boundaries tree_env ''/ftp_data'' ''All'' ''All'' empty_state = Some (ftp_result, None) \<and>
   made_dirs ftp_result = [] \<and>
   subdirs ''/ftp_data'' (urls ftp_result) = [] \<and>
   downloads ftp_result =
     map (\<lambda>u. (u, file_path ''/ftp_data'' u)) (url_fns ftp_result @ failed_fns ftp_result)"
proof -
  have h: "contains ''ftp'' ''/ftp_data''" by (simp add: contains_def sublist_Cons_right)
  from ftp_root_makes_no_directories [OF h ftp_run] h ftp_run show ?thesis
    by (simp add: empty_state_def)
qed

section \<open>Link classification\<close>

lemma scrape_links_plain:
  assumes "\<not> endswith href ''/''" "\<not> endswith href ''tif''" "\<not> endswith href ''nc''"
  shows "scrape_links e d site (Some href # rest) st = scrape_links e d site rest st"
  using assms by simp

text \<open>
  Claim C6.  A link is appended to the file list exactly when it ends in \<open>tif\<close> or in \<open>nc\<close>:
  a target ending in \<open>tif\<close> or \<open>nc\<close> is appended (and is neither added to \<open>urls\<close> nor
  requested), a target ending in \<open>.html\<close> changes nothing, and a target with neither
  suffix is at most treated as a directory, the file list being left as the directory
  step returns it.
\<close>

theorem scrape_recognizes_two_suffixes:
  assumes "\<not> endswith href ''tif''" "\<not> endswith href ''nc''"
  shows "scrape_links e d site (Some (name @ ''tif'') # rest) st =
      scrape_links e d site rest (st\<lparr>url_fns := url_fns st @ [site @ name @ ''tif'']\<rparr>) \<and>
    scrape_links e d site (Some (name @ ''nc'') # rest) st =
      scrape_links e d site rest (st\<lparr>url_fns := url_fns st @ [site @ name @ ''nc'']\<rparr>) \<and>
    scrape_links e d site (Some (name @ ''.html'') # rest) st = scrape_links e d site rest st \<and>
    scrape_links e d site (Some href # rest) st =
      (case (if endswith href ''/'' \<and> site @ href \<notin> set (urls st)
             then scrape e d (site @ href) (st\<lparr>urls := urls st @ [site @ href]\<rparr>)
             else (st, None)) of
         (st1, Some err) \<Rightarrow> (st1, Some err)
       | (st1, None) \<Rightarrow> scrape_links e d site rest st1)"
proof (intro conjI)
  show "scrape_links e d site (Some (name @ ''tif'') # rest) st =
      scrape_links e d site rest (st\<lparr>url_fns := url_fns st @ [site @ name @ ''tif'']\<rparr>)"
    by (simp add: endswith_def suffix_to_prefix)
  show "scrape_links e d site (Some (name @ ''nc'') # rest) st =
      scrape_links e d site rest (st\<lparr>url_fns := url_fns st @ [site @ name @ ''nc'']\<rparr>)"
    by (simp add: endswith_def suffix_to_prefix)
  show "scrape_links e d site (Some (name @ ''.html'') # rest) st = scrape_links e d site rest st"
    by (simp add: endswith_def suffix_to_prefix)
  show "scrape_links e d site (Some href # rest) st =
      (case (if endswith href ''/'' \<and> site @ href \<notin> set (urls st)
             then scrape e d (site @ href) (st\<lparr>urls := urls st @ [site @ href]\<rparr>)
             else (st, None)) of
         (st1, Some err) \<Rightarrow> (st1, Some err)
       | (st1, None) \<Rightarrow> scrape_links e d site rest st1)"
    using assms by simp
qed

theorem scrape_recognizes_two_suffixes_witness:
  "\<not> endswith ''index.html'' ''tif'' \<and> \<not> endswith ''index.html'' ''nc'' \<and>
   scrape_links tree_env 5 BASE_URL [Some ''x.tif''] empty_state =
     (empty_state\<lparr>url_fns := [BASE_URL @ ''x.tif'']\<rparr>, None) \<and>
   scrape_links tree_env 5 BASE_URL [Some ''y.nc''] empty_state =
     (empty_state\<lparr>url_fns := [BASE_URL @ ''y.nc'']\<rparr>, None) \<and>
   scrape_links tree_env 5 BASE_URL [Some ''index.html''] empty_state = (empty_state, None)"
proof -
  have h: "\<not> endswith ''index.html'' ''tif''" "\<not> endswith ''index.html'' ''nc''"
    by (simp_all add: endswith_def suffix_to_prefix)
  from scrape_recognizes_two_suffixes [OF h, of tree_env 5 BASE_URL "''x.''" "[]" empty_state]
    scrape_recognizes_two_suffixes [OF h, of tree_env 5 BASE_URL "''y.''" "[]" empty_state]
    scrape_recognizes_two_suffixes [OF h, of tree_env 5 BASE_URL "''index''" "[]" empty_state]
    h
  show ?thesis by (simp add: empty_state_def)
qed

text \<open>
  Claim C5, as the program has it.  A target that ends neither in the separator nor in
  \<open>tif\<close> nor in \<open>nc\<close> is skipped: the loop goes on with the state it had.  (A target that
  ends in the separator is taken for a sub-directory whatever it denotes.)
\<close>

theorem scrape_ignores_other_links:
  assumes "\<not> endswith href ''/''" "\<not> endswith href ''tif''" "\<not> endswith href ''nc''"
  shows "scrape_links e d site (Some href # rest) st = scrape_links e d site rest st \<and>
    scrape_links e d site [Some href] st = (st, None)"
  using assms by simp

theorem scrape_ignores_other_links_witness:
  "\<not> endswith ''?C=N;O=D'' ''/'' \<and> \<not> endswith ''?C=N;O=D'' ''tif'' \<and>
   \<not> endswith ''?C=N;O=D'' ''nc'' \<and>
   scrape_links tree_env 5 BASE_URL [Some ''?C=N;O=D''] empty_state = (empty_state, None)"
proof -
  have h: "\<not> endswith ''?C=N;O=D'' ''/''" "\<not> endswith ''?C=N;O=D'' ''tif''"
    "\<not> endswith ''?C=N;O=D'' ''nc''"
    by (simp_all add: endswith_def suffix_to_prefix)
  from scrape_ignores_other_links [OF h, of tree_env 5 BASE_URL "[]" empty_state] h
  show ?thesis by simp
qed

text \<open>
  Claim C5, as stated, fails on a parent-directory link: the target \<open>../\<close> ends in the
  separator, so its URL is added to \<open>urls\<close> and its listing is requested.
\<close>

theorem parent_link_is_followed:
  "\<not> endswith ''../'' ''tif'' \<and> \<not> endswith ''../'' ''nc'' \<and>
   listing parent_env BASE_URL 0 = Some [Some ''../''] \<and>
   urls (fst (scrape parent_env 10 BASE_URL (empty_state\<lparr>urls := [BASE_URL]\<rparr>))) =
     [BASE_URL, BASE_URL @ ''../''] \<and>
   requests (fst (scrape parent_env 10 BASE_URL (empty_state\<lparr>urls := [BASE_URL]\<rparr>))) =
     [BASE_URL, BASE_URL @ ''../'']"
  by (simp add: parent_env_def parent_listing_def empty_state_def endswith_def suffix_to_prefix
      eval_nat_numeral)

section \<open>Scraping a small tree\<close>

text \<open>
  Claim C1 on the server whose root lists \<open>a/\<close> and \<open>y.nc\<close> and whose directory \<open>a/\<close> lists
  \<open>x.tif\<close>.  The recursion requests \<open>a/\<close> when it discovers it; the loop over \<open>urls\<close> then
  reaches the entry that the recursion appended and requests \<open>a/\<close> a second time, which
  appends \<open>a/x.tif\<close> to the file list once more.
\<close>

theorem discovered_directory_is_scraped_twice:
  "scrape_all tree_env 0 (empty_state\<lparr>urls := select_seeds ''All'' ''All'', url_fns := []\<rparr>) =
     Some (tree_scraped, None) \<and>
   requests tree_scraped = [BASE_URL, BASE_URL @ ''a/'', BASE_URL @ ''a/''] \<and>
   url_fns tree_scraped = [BASE_URL @ ''a/x.tif'', BASE_URL @ ''y.nc'', BASE_URL @ ''a/x.tif''] \<and>
   \<not> distinct (requests tree_scraped)"
  by (simp add: tree_scrape) (simp add: tree_scraped_def)

section \<open>Download failures\<close>

lemma flaky_download_all:
  "download_all flaky_env ''/data'' (empty_state\<lparr>urls := [BASE_URL],
     url_fns := [BASE_URL @ ''y.nc''], requests := [BASE_URL], made_dirs := [''/data/'']\<rparr>) =
   flaky_result"
  by (simp add: download_all_def download_file_def Let_def flaky_env_def empty_state_def
      flaky_result_def file_path_under_base base_absent root_prefix_examples)

lemma data_subdirs: "subdirs ''/data'' [BASE_URL] = [''/data/'']"
  by (simp add: subdirs_def base_not_drll replace_self BASE_URL_nonempty root_prefix_examples
      contains_def sublist_Cons_right replace_absent)

text \<open>
  Claim C2 on a server where the first fetch of \<open>y.nc\<close> ends in a \<^verbatim>\<open>URLError\<close> and the second
  would deliver the body.  \<^verbatim>\<open>download_file\<close> catches the error itself, so the engine sees no
  failure: the URL is fetched once and the run ends without the file.
\<close>

theorem urlerror_is_not_retried:
  "urlopen flaky_env (BASE_URL @ ''y.nc'') 0 = URLError \<and>
   urlopen flaky_env (BASE_URL @ ''y.nc'') 1 = Body ''data'' \<and>
   download_ai4boundaries flaky_env ''/data'' ''All'' ''All'' empty_state =
     Some (flaky_result, None) \<and>
   downloads flaky_result = [(BASE_URL @ ''y.nc'', ''/data/y.nc'')] \<and>
   files flaky_result ''/data/y.nc'' = None"
proof -
  let ?s1 = "empty_state\<lparr>urls := [BASE_URL], url_fns := [BASE_URL @ ''y.nc''],
    requests := [BASE_URL]\<rparr>"
  have m: "mkdirs flaky_env (subdirs ''/data'' [BASE_URL]) ?s1 =
      (empty_state\<lparr>urls := [BASE_URL], url_fns := [BASE_URL @ ''y.nc''],
         requests := [BASE_URL], made_dirs := [''/data/'']\<rparr>, None)"
    by (simp add: data_subdirs flaky_env_def empty_state_def)
  have "download_ai4boundaries flaky_env ''/data'' ''All'' ''All'' empty_state =
      Some (flaky_result, None)"
    by (simp add: download_ai4boundaries_def valid_sensors_def valid_countries_def flaky_scrape
        m flaky_download_all)
  then show ?thesis by (simp add: flaky_env_def flaky_result_def)
qed

text \<open>
  Claim C9 on the same server, for the engine alone: the first attempt at \<open>y.nc\<close> fails
  with a \<^verbatim>\<open>URLError\<close>, yet no pause is taken and the failure list stays empty.
\<close>

theorem urlerror_takes_no_cooldown:
  "urlopen flaky_env (BASE_URL @ ''y.nc'') 0 = URLError \<and>
   sleeps (download_all flaky_env ''/data'' (empty_state\<lparr>url_fns := [BASE_URL @ ''y.nc'']\<rparr>)) = [] \<and>
   failed_fns (download_all flaky_env ''/data'' (empty_state\<lparr>url_fns := [BASE_URL @ ''y.nc'']\<rparr>)) = [] \<and>
   downloads (download_all flaky_env ''/data'' (empty_state\<lparr>url_fns := [BASE_URL @ ''y.nc'']\<rparr>)) =
     [(BASE_URL @ ''y.nc'', ''/data/y.nc'')]"
  by (simp add: download_all_def download_file_def Let_def flaky_env_def empty_state_def
      file_path_under_base base_absent root_prefix_examples)

text \<open>
  What the engine does with an exception that does escape \<^verbatim>\<open>download_file\<close>: one pause of 20
  and one entry in the failure list in the first loop, nothing but the next URL in the
  second.
\<close>

lemma first_pass_raise:
  assumes "download_file e u (file_path dir u) st = (st1, Some err)"
  shows "first_pass e dir (u # rest) st =
    first_pass e dir rest (st1\<lparr>sleeps := sleeps st1 @ [20], failed_fns := failed_fns st1 @ [u]\<rparr>)"
  using assms by simp

lemma retry_pass_raise:
  assumes "download_file e u (file_path dir u) st = (st1, Some err)"
  shows "retry_pass e dir (u # rest) st = retry_pass e dir rest st1"
  using assms by simp

section \<open>The two path translations\<close>

lemma replace_drll_examples:
  "replace ''/data/'' ''DRLL/'' '''' = ''/data/''"
  "replace ''/data/DRLL/'' ''DRLL/'' '''' = ''/data/''"
  "replace ''/data/DRLL/a/'' ''DRLL/'' '''' = ''/data/a/''"
  "replace ''/data/DRLL/a/x.tif'' ''DRLL/'' '''' = ''/data/a/x.tif''"
  by (simp_all add: replace_skip replace_match replace_Nil)

text \<open>
  Claim C4 at the root directory \<open>/data/DRLL\<close>.  The directory list is built with the
  segment \<open>DRLL/\<close> removed, the destination of a file is not: the directory made for
  \<open>a/\<close> is \<open>/data/a/\<close>, the file \<open>a/x.tif\<close> is written to \<open>/data/DRLL/a/x.tif\<close>.
\<close>

theorem file_and_directory_paths_differ:
  "subdirs ''/data/DRLL'' [BASE_URL, BASE_URL @ ''a/''] = [''/data/'', ''/data/a/''] \<and>
   file_path ''/data/DRLL'' (BASE_URL @ ''a/x.tif'') = ''/data/DRLL/a/x.tif'' \<and>
   dir_path ''/data/DRLL'' (BASE_URL @ ''a/x.tif'') = ''/data/a/x.tif''"
proof (intro conjI)
  have r: "replace (BASE_URL @ ''a/'') BASE_URL ''/data/DRLL/'' = ''/data/DRLL/a/''"
    "replace (BASE_URL @ ''a/x.tif'') BASE_URL ''/data/DRLL/'' = ''/data/DRLL/a/x.tif''"
    "replace BASE_URL BASE_URL ''/data/DRLL/'' = ''/data/DRLL/''"
    by (simp_all add: replace_prefix replace_self BASE_URL_nonempty replace_absent base_absent)
  have e: "\<not> endswith (BASE_URL @ ''a/'') ''DRLL/''"
    by (simp add: endswith_def suffix_to_prefix)
  show "subdirs ''/data/DRLL'' [BASE_URL, BASE_URL @ ''a/''] = [''/data/'', ''/data/a/'']"
    by (simp add: subdirs_def base_not_drll e r root_prefix_examples replace_drll_examples
        contains_def sublist_Cons_right)
  show "file_path ''/data/DRLL'' (BASE_URL @ ''a/x.tif'') = ''/data/DRLL/a/x.tif''"
    by (simp add: file_path_def r root_prefix_examples)
  show "dir_path ''/data/DRLL'' (BASE_URL @ ''a/x.tif'') = ''/data/a/x.tif''"
    by (simp add: dir_path_def r root_prefix_examples replace_drll_examples)
qed

text \<open>The two translations agree wherever the segment does not occur.\<close>

lemma paths_agree:
  assumes "\<not> contains ''DRLL/'' (file_path dir url)"
  shows "dir_path dir url = file_path dir url"
  using assms by (simp add: dir_path_def file_path_def replace_absent)

text \<open>
  Claim C3, as stated, fails: the URLs \<open>a/\<close> and \<open>DRLL/a/\<close> under the base prefix are
  translated to the same directory.
\<close>

theorem dir_path_not_injective:
  "BASE_URL @ ''a/'' \<noteq> BASE_URL @ ''DRLL/a/'' \<and>
   prefix BASE_URL (BASE_URL @ ''a/'') \<and> prefix BASE_URL (BASE_URL @ ''DRLL/a/'') \<and>
   dir_path ''/data'' (BASE_URL @ ''a/'') = ''/data/a/'' \<and>
   dir_path ''/data'' (BASE_URL @ ''DRLL/a/'') = ''/data/a/''"
proof -
  have "replace (BASE_URL @ ''a/'') BASE_URL ''/data/'' = ''/data/a/''"
    "replace (BASE_URL @ ''DRLL/a/'') BASE_URL ''/data/'' = ''/data/DRLL/a/''"
    by (simp_all add: replace_prefix BASE_URL_nonempty replace_absent base_absent)
  moreover have "replace ''/data/a/'' ''DRLL/'' '''' = ''/data/a/''"
    by (simp add: replace_skip replace_Nil)
  ultimately show ?thesis
    by (simp add: dir_path_def root_prefix_examples replace_drll_examples)
qed

text \<open>
  Claim C3, as the program has it.  Two distinct URLs under the base prefix get distinct
  directory paths, for every root directory, provided that neither remainder contains the
  base prefix again or the segment \<open>DRLL/\<close>.
\<close>

theorem dir_path_injective:
  assumes "u1 = BASE_URL @ r1" "u2 = BASE_URL @ r2" "u1 \<noteq> u2"
    and "\<not> contains BASE_URL r1" "\<not> contains BASE_URL r2"
    and "\<not> contains ''DRLL/'' r1" "\<not> contains ''DRLL/'' r2"
  shows "dir_path dir u1 \<noteq> dir_path dir u2"
  using assms by (simp add: dir_path_under_base)

theorem dir_path_injective_witness:
  "BASE_URL @ ''a/'' \<noteq> BASE_URL @ ''b/'' \<and>
   \<not> contains BASE_URL ''a/'' \<and> \<not> contains BASE_URL ''b/'' \<and>
   \<not> contains ''DRLL/'' ''a/'' \<and> \<not> contains ''DRLL/'' ''b/'' \<and>
   dir_path ''/data/DRLL'' (BASE_URL @ ''a/'') \<noteq> dir_path ''/data/DRLL'' (BASE_URL @ ''b/'')"
proof -
  have ne: "BASE_URL @ ''a/'' \<noteq> BASE_URL @ ''b/''" by simp
  have d: "\<not> contains ''DRLL/'' ''a/''" "\<not> contains ''DRLL/'' ''b/''"
    by (simp_all add: contains_def sublist_Cons_right)
  from dir_path_injective [OF refl refl ne base_absent(1) base_absent(2) d, of "''/data/DRLL''"]
    ne base_absent(1) base_absent(2) d
  show ?thesis by simp
qed

end
